theory Spec2Isabelle
  imports Main "HOL-Library.Word"
begin

section \<open>The network idle detector (waitForNetworkIdle)\<close>

text \<open>
  \<^verbatim>\<open>waitForNetworkIdle(page, timeout)\<close> keeps two variables in its closure,
  \<^verbatim>\<open>lastRequestTime\<close> and \<^verbatim>\<open>idleTimeout\<close>, and talks to the timer facility of the
  JavaScript runtime through \<^verbatim>\<open>setTimeout\<close> and \<^verbatim>\<open>clearTimeout\<close>. The record below
  holds the closure variables together with the part of the runtime the detector can
  observe: the timers that are armed and have neither fired nor been cleared (handle and
  due time), the next fresh handle, and the times at which \<^verbatim>\<open>resolve()\<close> was called.
  Times are readings of \<^verbatim>\<open>Date.now()\<close> in milliseconds. \<^verbatim>\<open>idleTimeout\<close> is
  \<open>None\<close> while the variable is still \<^verbatim>\<open>undefined\<close>.
\<close>

record detector =
  lastRequestTime :: int
  idleTimeout :: "nat option"
  timers :: "(nat \<times> int) list"
  nextHandle :: nat
  resolveCalls :: "int list"

text \<open>
  \<^verbatim>\<open>setTimeout(checkIdle, delay)\<close> called when the clock reads \<open>now\<close>: a new timer with
  a fresh handle, due \<open>delay\<close> milliseconds later; the handle is returned. The callback
  is always \<^verbatim>\<open>checkIdle\<close>, so it is not stored. Delays are taken to lie in the range the
  runtime honours as given (1 to 2147483647 ms; the configured value is 30000).
\<close>

definition setTimeout :: "int \<Rightarrow> int \<Rightarrow> detector \<Rightarrow> nat \<times> detector" where
  "setTimeout now delay s =
     (nextHandle s,
      s\<lparr>timers := timers s @ [(nextHandle s, now + delay)],
        nextHandle := Suc (nextHandle s)\<rparr>)"

text \<open>
  \<^verbatim>\<open>clearTimeout(h)\<close>: the timer with that handle, if it is still pending, is removed;
  \<^verbatim>\<open>clearTimeout(undefined)\<close> and clearing a timer that has already fired do nothing.
\<close>

definition clearTimeout :: "nat option \<Rightarrow> detector \<Rightarrow> detector" where
  "clearTimeout h s = s\<lparr>timers := filter (\<lambda>(i, d). Some i \<noteq> h) (timers s)\<rparr>"

text \<open>
  \<^verbatim>\<open>
  const onRequest = () => {
    lastRequestTime = Date.now();
    clearTimeout(idleTimeout);
    idleTimeout = setTimeout(checkIdle, timeout);
  };
  \<close>
\<close>

definition onRequest :: "int \<Rightarrow> int \<Rightarrow> detector \<Rightarrow> detector" where
  "onRequest timeout now s =
     (let s1 = s\<lparr>lastRequestTime := now\<rparr>;
          s2 = clearTimeout (idleTimeout s1) s1;
          (h, s3) = setTimeout now timeout s2
      in s3\<lparr>idleTimeout := Some h\<rparr>)"

text \<open>
  \<^verbatim>\<open>
  const checkIdle = () => {
    if(Date.now() - lastRequestTime >= timeout) {
      console.log('Network traffic is idle. Continuing...');
      resolve();
    } else {
      clearTimeout(idleTimeout);
      idleTimeout = setTimeout(checkIdle, timeout);
    }
  };
  \<close>
\<close>

definition checkIdle :: "int \<Rightarrow> int \<Rightarrow> detector \<Rightarrow> detector" where
  "checkIdle timeout now s =
     (if now - lastRequestTime s \<ge> timeout
      then s\<lparr>resolveCalls := resolveCalls s @ [now]\<rparr>
      else (let s1 = clearTimeout (idleTimeout s) s;
                (h, s2) = setTimeout now timeout s1
            in s2\<lparr>idleTimeout := Some h\<rparr>))"

text \<open>
  The body of the promise executor, run when the clock reads \<open>now\<close>:
  \<^verbatim>\<open>
  let lastRequestTime = Date.now();
  let idleTimeout;
  ...
  page.on('request', onRequest);
  // Initial timeout
  idleTimeout = setTimeout(checkIdle, timeout);
  \<close>
\<close>

definition waitForNetworkIdle :: "int \<Rightarrow> int \<Rightarrow> detector" where
  "waitForNetworkIdle timeout now =
     (let s0 = \<lparr>lastRequestTime = now, idleTimeout = None, timers = [],
                nextHandle = 0, resolveCalls = []\<rparr>;
          (h, s1) = setTimeout now timeout s0
      in s1\<lparr>idleTimeout := Some h\<rparr>)"

text \<open>
  What happens to the detector afterwards is a sequence of callbacks. \<open>Request t\<close>: the
  page emits a request event and \<^verbatim>\<open>onRequest\<close> runs with the clock at \<open>t\<close>.
  \<open>Fire t\<close>: the runtime fires the oldest pending timer, which leaves the pending set
  before its callback \<^verbatim>\<open>checkIdle\<close> runs with the clock at \<open>t\<close>; with no timer pending
  nothing runs. The runtime decides on its own clock when a timer fires, so \<open>Fire t\<close>
  does not compare \<open>t\<close> with the due time: a timer that fires when \<^verbatim>\<open>Date.now()\<close> is
  still short of it is the premature fire that the else branch of \<^verbatim>\<open>checkIdle\<close> is
  written for.
\<close>

datatype event = Request int | Fire int

fun event_time :: "event \<Rightarrow> int" where
  "event_time (Request t) = t"
| "event_time (Fire t) = t"

definition fireTimer :: "int \<Rightarrow> int \<Rightarrow> detector \<Rightarrow> detector" where
  "fireTimer timeout now s =
     (case timers s of
        [] \<Rightarrow> s
      | (h, d) # rest \<Rightarrow> checkIdle timeout now (s\<lparr>timers := rest\<rparr>))"

fun step :: "int \<Rightarrow> event \<Rightarrow> detector \<Rightarrow> detector" where
  "step timeout (Request t) s = onRequest timeout t s"
| "step timeout (Fire t) s = fireTimer timeout t s"

fun exec :: "int \<Rightarrow> detector \<Rightarrow> event list \<Rightarrow> detector" where
  "exec timeout s [] = s"
| "exec timeout s (e # es) = exec timeout (step timeout e s) es"

text \<open>The times of the \<^verbatim>\<open>onRequest\<close> calls of a run, in order.\<close>

fun request_times :: "event list \<Rightarrow> int list" where
  "request_times [] = []"
| "request_times (Request t # es) = t # request_times es"
| "request_times (Fire t # es) = request_times es"

text \<open>All gaps between neighbours of a list of times are strictly below the timeout.\<close>

fun gaps_below :: "int \<Rightarrow> int list \<Rightarrow> bool" where
  "gaps_below timeout [] = True"
| "gaps_below timeout [x] = True"
| "gaps_below timeout (x # y # ts) = (y - x < timeout \<and> gaps_below timeout (y # ts))"

text \<open>The clock does not run backwards: the events come in the order of their times,
  none before the detector was started at \<open>t0\<close>.\<close>

definition chronological :: "int \<Rightarrow> event list \<Rightarrow> bool" where
  "chronological t0 es = sorted (t0 # map event_time es)"

section \<open>Strings\<close>

text \<open>
  A JavaScript string is a sequence of 16-bit code units. \<open>lit\<close> embeds a literal of
  the source (ASCII) as such a sequence.
\<close>

type_synonym jsstring = "16 word list"

definition lit :: "string \<Rightarrow> jsstring" where
  "lit s = map (\<lambda>c. of_nat (of_char c)) s"

text \<open>\<^verbatim>\<open>s.includes(p)\<close>: \<open>p\<close> occurs in \<open>s\<close> as a contiguous run of code units.\<close>

fun startsWith :: "jsstring \<Rightarrow> jsstring \<Rightarrow> bool" where
  "startsWith s [] = True"
| "startsWith [] (p # ps) = False"
| "startsWith (c # cs) (p # ps) = (c = p \<and> startsWith cs ps)"

fun includes_js :: "jsstring \<Rightarrow> jsstring \<Rightarrow> bool" where
  "includes_js [] p = startsWith [] p"
| "includes_js (c # cs) p = (startsWith (c # cs) p \<or> includes_js cs p)"

text \<open>
  \<^verbatim>\<open>s.trim()\<close> removes white space and line terminators from both ends. The code units
  that count are those of ECMAScript's WhiteSpace and LineTerminator productions: TAB,
  LF, VT, FF, CR, SPACE, NBSP, U+1680, U+2000 to U+200A, U+2028, U+2029, U+202F, U+205F,
  U+3000 and U+FEFF.
\<close>

definition isWhiteSpace :: "16 word \<Rightarrow> bool" where
  "isWhiteSpace c \<longleftrightarrow>
     c \<in> set [9, 10, 11, 12, 13, 32, 160, 5760,
              8192, 8193, 8194, 8195, 8196, 8197, 8198, 8199, 8200, 8201, 8202,
              8232, 8233, 8239, 8287, 12288, 65279]"

definition trim :: "jsstring \<Rightarrow> jsstring" where
  "trim s = rev (dropWhile isWhiteSpace (rev (dropWhile isWhiteSpace s)))"

text \<open>
  A number inside a template literal is rendered in decimal, with a leading minus sign
  when negative (this is the rendering of every integer of magnitude below \<open>10^21\<close>).
\<close>

definition digit :: "nat \<Rightarrow> 16 word" where
  "digit d = of_nat (48 + d)"

function decimal :: "nat \<Rightarrow> jsstring" where
  "decimal n = (if n < 10 then [digit n] else decimal (n div 10) @ [digit (n mod 10)])"
  by pat_completeness auto
termination
  by (relation "measure id") auto

declare decimal.simps [simp del]

definition numberToString :: "int \<Rightarrow> jsstring" where
  "numberToString n = (if n < 0 then lit ''-'' @ decimal (nat (- n)) else decimal (nat n))"

section \<open>Configuration and errors\<close>

text \<open>
  The \<^verbatim>\<open>CONFIG\<close> object. Its fourth field, \<^verbatim>\<open>outputDirectory\<close>, is the path
  \<^verbatim>\<open>path.join(__dirname, 'output')\<close>; the model does not carry the path but the state of
  the directory it names (see the output store below). The functions below take the
  configuration as an argument instead of reading the global.
\<close>

record config =
  targetUrl :: jsstring
  apiEndpoint :: jsstring
  networkIdleTimeout :: int

definition CONFIG :: config where
  "CONFIG =
     \<lparr>targetUrl = lit ''https://www.piattaformaunicanazionale.it/idr'',
      apiEndpoint =
        lit ''https://api.pun.piattaformaunicanazionale.it/v1/chargepoints/public/map/search'',
      networkIdleTimeout = 30000\<rparr>"

text \<open>
  Everything that can be thrown in a run: the rejections of the browser operations, of
  reading a response body, and the two file-system errors of the model, each with the
  name of the entry.
\<close>

datatype error =
    LaunchFailed
  | NewPageFailed
  | CDPSessionFailed
  | NavigationFailed
  | ResponseTextFailed
  | CloseFailed
  | EISDIR jsstring
  | ENOENT jsstring

section \<open>The response observer\<close>

text \<open>
  \<^verbatim>\<open>
  page.on('response', async (response) => {
    const request = response.request();
    const url = request.url();
    if(url.includes(CONFIG.apiEndpoint)) {
      try {
        console.log('Map search response detected');
        const responseText = await response.text();
        if(responseText.trim()) {
          responses.push(responseText);
        }
      } catch (error) {
        console.error('Error processing response:', error.message);
      }
    }
  });
  \<close>
  One run of the handler, on a response whose request has URL \<open>url\<close> and whose
  \<^verbatim>\<open>text()\<close> promise settles with \<open>text\<close> (\<open>Inl\<close>: it rejects), as a function on
  the array \<^verbatim>\<open>responses\<close>. A string is truthy when it is not empty.
\<close>

definition onResponse ::
  "config \<Rightarrow> jsstring \<Rightarrow> error + jsstring \<Rightarrow> jsstring list \<Rightarrow> jsstring list" where
  "onResponse cfg url text responses =
     (if includes_js url (apiEndpoint cfg) then
        (case text of
           Inr responseText \<Rightarrow>
             if trim responseText \<noteq> [] then responses @ [responseText] else responses
         | Inl err \<Rightarrow> responses)
      else responses)"

section \<open>The output store\<close>

text \<open>
  The output directory is either missing (\<open>None\<close>) or holds a list of named entries,
  each a plain file with its contents or a subdirectory; the list is in the order in
  which \<^verbatim>\<open>readdirSync\<close> reports the names. \<^verbatim>\<open>path.join(CONFIG.outputDirectory, name)\<close>
  addresses the entry \<open>name\<close> of that directory. File contents are kept as the string
  handed to \<^verbatim>\<open>writeFileSync\<close>.
\<close>

datatype node = File jsstring | Dir

type_synonym directory = "(jsstring \<times> node) list"

definition existsSync :: "directory option \<Rightarrow> bool" where
  "existsSync d \<longleftrightarrow> d \<noteq> None"

definition readdirSync :: "directory option \<Rightarrow> error + jsstring list" where
  "readdirSync d = (case d of None \<Rightarrow> Inl (ENOENT []) | Some es \<Rightarrow> Inr (map fst es))"

text \<open>Removing and replacing the first entry with a given name (names in a directory
  are unique).\<close>

fun remove_entry :: "jsstring \<Rightarrow> directory \<Rightarrow> directory" where
  "remove_entry name [] = []"
| "remove_entry name ((n, x) # es) = (if n = name then es else (n, x) # remove_entry name es)"

fun put_entry :: "jsstring \<Rightarrow> node \<Rightarrow> directory \<Rightarrow> directory" where
  "put_entry name y [] = [(name, y)]"
| "put_entry name y ((n, x) # es) =
     (if n = name then (n, y) # es else (n, x) # put_entry name y es)"

text \<open>
  \<^verbatim>\<open>fs.unlinkSync\<close> removes a plain file and throws on a subdirectory and on a missing
  entry. \<^verbatim>\<open>fs.writeFileSync\<close> creates the file or replaces its contents and throws
  when the name is taken by a subdirectory or the directory is missing.
  \<^verbatim>\<open>fs.mkdirSync(..., { recursive: true })\<close> creates the missing directory, empty, and
  leaves an existing one alone.
\<close>

definition unlinkSync :: "jsstring \<Rightarrow> directory option \<Rightarrow> error + directory option" where
  "unlinkSync name d =
     (case d of
        None \<Rightarrow> Inl (ENOENT name)
      | Some es \<Rightarrow>
          (case map_of es name of
             None \<Rightarrow> Inl (ENOENT name)
           | Some Dir \<Rightarrow> Inl (EISDIR name)
           | Some (File data) \<Rightarrow> Inr (Some (remove_entry name es))))"

definition writeFileSync ::
  "jsstring \<Rightarrow> jsstring \<Rightarrow> directory option \<Rightarrow> error + directory option" where
  "writeFileSync name data d =
     (case d of
        None \<Rightarrow> Inl (ENOENT name)
      | Some es \<Rightarrow>
          (case map_of es name of
             Some Dir \<Rightarrow> Inl (EISDIR name)
           | _ \<Rightarrow> Inr (Some (put_entry name (File data) es))))"

definition mkdirSync :: "directory option \<Rightarrow> directory option" where
  "mkdirSync d = (case d of None \<Rightarrow> Some [] | Some es \<Rightarrow> Some es)"

text \<open>
  \<^verbatim>\<open>
  async function prepareOutputDirectory() {
    if(fs.existsSync(CONFIG.outputDirectory)) {
      const files = fs.readdirSync(CONFIG.outputDirectory);
      for(const file of files) {
        const filePath = path.join(CONFIG.outputDirectory, file);
        fs.unlinkSync(filePath);
        console.log(`Deleted ${file}`);
      }
    } else {
      console.log('Output directory does not exist. It will be created.');
    }
  }
  \<close>
  The result is the error thrown, if any, and the directory as it is left behind.
\<close>

fun unlink_loop ::
  "jsstring list \<Rightarrow> directory option \<Rightarrow> error option \<times> directory option" where
  "unlink_loop [] d = (None, d)"
| "unlink_loop (file # files) d =
     (case unlinkSync file d of
        Inl err \<Rightarrow> (Some err, d)
      | Inr d' \<Rightarrow> unlink_loop files d')"

definition prepareOutputDirectory ::
  "directory option \<Rightarrow> error option \<times> directory option" where
  "prepareOutputDirectory d =
     (if existsSync d then
        (case readdirSync d of
           Inl err \<Rightarrow> (Some err, d)
         | Inr files \<Rightarrow> unlink_loop files d)
      else (None, d))"

text \<open>
  \<^verbatim>\<open>
  async function saveResponses(responses) {
    if(!fs.existsSync(CONFIG.outputDirectory)) {
      fs.mkdirSync(CONFIG.outputDirectory, { recursive: true });
    }
    const timestamp = Date.now();
    for(let i = 0; i < responses.length; i++) {
      const fileName = `response_${i}_${timestamp}.json`;
      const filePath = path.join(CONFIG.outputDirectory, fileName);
      fs.writeFileSync(filePath, responses[i]);
      console.log(`Saved ${fileName}`);
    }
  }
  \<close>
  \<open>timestamp\<close> is the reading of \<^verbatim>\<open>Date.now()\<close>.
\<close>

definition fileName :: "nat \<Rightarrow> int \<Rightarrow> jsstring" where
  "fileName i timestamp =
     lit ''response_'' @ numberToString (int i) @ lit ''_'' @ numberToString timestamp
       @ lit ''.json''"

function write_loop ::
  "int \<Rightarrow> jsstring list \<Rightarrow> nat \<Rightarrow> directory option \<Rightarrow> error option \<times> directory option"
  where
  "write_loop timestamp responses i d =
     (if i < length responses then
        (case writeFileSync (fileName i timestamp) (responses ! i) d of
           Inl err \<Rightarrow> (Some err, d)
         | Inr d' \<Rightarrow> write_loop timestamp responses (Suc i) d')
      else (None, d))"
  by pat_completeness auto
termination
  by (relation "measure (\<lambda>(timestamp, responses, i, d). length responses - i)") auto

declare write_loop.simps [simp del]

definition saveResponses ::
  "int \<Rightarrow> jsstring list \<Rightarrow> directory option \<Rightarrow> error option \<times> directory option" where
  "saveResponses timestamp responses d =
     (let d1 = (if \<not> existsSync d then mkdirSync d else d)
      in write_loop timestamp responses 0 d1)"

text \<open>The entry of a name in the output directory, if the directory and the entry exist.\<close>

definition entry :: "directory option \<Rightarrow> jsstring \<Rightarrow> node option" where
  "entry d name = (case d of None \<Rightarrow> None | Some es \<Rightarrow> map_of es name)"

section \<open>The capture session (main) and the top-level runner\<close>

text \<open>
  What the browser and the page do in one run is not decided by the script; it is given
  as an environment: for each awaited browser operation whether it rejects (\<open>Some\<close>
  the error) or fulfils, the response events whose handler has finished by the end of
  navigation and by the end of the idle wait (the request URL and how \<^verbatim>\<open>text()\<close>
  settles), the clock when \<^verbatim>\<open>waitForNetworkIdle\<close> starts and the callbacks the detector
  receives, and the clock when \<^verbatim>\<open>saveResponses\<close> runs. The output directory is not the
  script's alone: \<open>directory_changes\<close> is what the rest of the system does to it while
  the session navigates and waits, taking the directory as \<^verbatim>\<open>prepareOutputDirectory\<close>
  left it to the directory as \<^verbatim>\<open>saveResponses\<close> finds it.
\<close>

record env =
  launch_result :: "error option"
  newPage_result :: "error option"
  createCDPSession_result :: "error option"
  goto_result :: "error option"
  close_result :: "error option"
  navigation_responses :: "(jsstring \<times> (error + jsstring)) list"
  idle_responses :: "(jsstring \<times> (error + jsstring)) list"
  idle_start :: int
  idle_events :: "event list"
  directory_changes :: "directory option \<Rightarrow> directory option"
  save_time :: int

text \<open>The calls the script makes, in order, are recorded as a trace.\<close>

datatype action =
    Launch
  | NewPage
  | CreateCDPSession
  | PrepareOutputDirectory
  | RegisterResponseObserver
  | Goto
  | WaitForNetworkIdle
  | SaveResponses
  | LogError error
  | CloseBrowser

text \<open>
  The state of a run: the trace, the output directory, the array \<^verbatim>\<open>responses\<close> and
  whether the variable \<^verbatim>\<open>browser\<close> has been assigned.
\<close>

record world =
  actions :: "action list"
  dir :: "directory option"
  responses :: "jsstring list"
  browser :: bool

text \<open>How a block of statements ends: normally, by throwing, or never (an awaited
  promise that does not settle).\<close>

datatype completion = Normal | Throw error | Hang

definition act :: "action \<Rightarrow> world \<Rightarrow> world" where
  "act a w = w\<lparr>actions := actions w @ [a]\<rparr>"

definition deliver ::
  "config \<Rightarrow> (jsstring \<times> (error + jsstring)) list \<Rightarrow> world \<Rightarrow> world" where
  "deliver cfg rs w =
     w\<lparr>responses := foldl (\<lambda>acc (url, text). onResponse cfg url text acc) (responses w) rs\<rparr>"

text \<open>
  The \<^verbatim>\<open>try\<close> block of \<^verbatim>\<open>main\<close>, statement by statement:
  \<^verbatim>\<open>
  browser = await puppeteer.launch();
  const page = await browser.newPage();
  await page.createCDPSession();
  await prepareOutputDirectory();
  const responses = [];
  page.on('response', async (response) => { ... });
  await page.goto(CONFIG.targetUrl);
  await waitForNetworkIdle(page, CONFIG.networkIdleTimeout);
  await saveResponses(responses);
  \<close>
  The promise of \<^verbatim>\<open>waitForNetworkIdle\<close> is settled once \<^verbatim>\<open>resolve()\<close> has been called.
  \<^verbatim>\<open>saveResponses\<close> meets the directory as the rest of the system has left it by then,
  so its writes can be refused although \<^verbatim>\<open>prepareOutputDirectory\<close> emptied it.
\<close>

definition try_block :: "config \<Rightarrow> env \<Rightarrow> world \<Rightarrow> completion \<times> world" where
  "try_block cfg e w0 =
     (let w1 = act Launch w0 in
      case launch_result e of Some err \<Rightarrow> (Throw err, w1) | None \<Rightarrow>
     (let w2 = act NewPage (w1\<lparr>browser := True\<rparr>) in
      case newPage_result e of Some err \<Rightarrow> (Throw err, w2) | None \<Rightarrow>
     (let w3 = act CreateCDPSession w2 in
      case createCDPSession_result e of Some err \<Rightarrow> (Throw err, w3) | None \<Rightarrow>
     (let (r, d) = prepareOutputDirectory (dir w3);
          w4 = (act PrepareOutputDirectory w3)\<lparr>dir := d\<rparr> in
      case r of Some err \<Rightarrow> (Throw err, w4) | None \<Rightarrow>
     (let w5 = act RegisterResponseObserver (w4\<lparr>responses := []\<rparr>);
          w6 = deliver cfg (navigation_responses e) (act Goto w5) in
      case goto_result e of Some err \<Rightarrow> (Throw err, w6) | None \<Rightarrow>
     (let w7 = deliver cfg (idle_responses e) (act WaitForNetworkIdle w6);
          s = exec (networkIdleTimeout cfg)
                (waitForNetworkIdle (networkIdleTimeout cfg) (idle_start e)) (idle_events e) in
      if resolveCalls s = [] then (Hang, w7) else
     (let (r, d) = saveResponses (save_time e) (responses w7) (directory_changes e (dir w7));
          w8 = (act SaveResponses w7)\<lparr>dir := d\<rparr> in
      case r of Some err \<Rightarrow> (Throw err, w8) | None \<Rightarrow> (Normal, w8))))))))"

text \<open>
  \<^verbatim>\<open>
  async function main() {
    let browser;
    try { ... }
    catch (error) { console.error('An error occurred:', error); }
    finally {
      if(browser) {
        console.log('Closing browser...');
        await browser.close();
        console.log('Browser closed.');
      }
    }
  }
  \<close>
  The run starts with the directory as it is found, \<open>d0\<close>, and \<^verbatim>\<open>browser\<close>
  unassigned. The result is how the promise of \<^verbatim>\<open>main\<close> settles: \<open>Normal\<close> when it
  fulfils, \<open>Throw\<close> when it rejects, \<open>Hang\<close> when it stays pending.
\<close>

definition initial_world :: "directory option \<Rightarrow> world" where
  "initial_world d0 = \<lparr>actions = [], dir = d0, responses = [], browser = False\<rparr>"

definition main :: "config \<Rightarrow> env \<Rightarrow> directory option \<Rightarrow> completion \<times> world" where
  "main cfg e d0 =
     (let (c, w1) = try_block cfg e (initial_world d0) in
      case c of
        Hang \<Rightarrow> (Hang, w1)
      | _ \<Rightarrow>
         (let w2 = (case c of Throw err \<Rightarrow> act (LogError err) w1 | _ \<Rightarrow> w1) in
          if browser w2 then
            (let w3 = act CloseBrowser w2 in
             case close_result e of Some err \<Rightarrow> (Throw err, w3) | None \<Rightarrow> (Normal, w3))
          else (Normal, w2)))"

text \<open>
  \<^verbatim>\<open>
  main().catch(error => {
    console.error('Unhandled error:', error);
    process.exit(1);
  });
  \<close>
  The exit status of the process: 1 from the rejection handler, 0 when \<^verbatim>\<open>main\<close> fulfils
  and the process ends on its own, none while \<^verbatim>\<open>main\<close> is pending.
\<close>

definition exit_status :: "config \<Rightarrow> env \<Rightarrow> directory option \<Rightarrow> int option" where
  "exit_status cfg e d0 =
     (case fst (main cfg e d0) of
        Throw err \<Rightarrow> Some 1
      | Normal \<Rightarrow> Some 0
      | Hang \<Rightarrow> None)"

text \<open>
  A run in which nothing goes wrong and nothing is captured: every browser operation
  fulfils, no response is observed, no request is made after navigation, the idle
  check armed at the start of the wait (clock 0) fires when it is due, and nobody else
  touches the output directory.
\<close>

definition quiet_env :: env where
  "quiet_env =
     \<lparr>launch_result = None, newPage_result = None, createCDPSession_result = None,
      goto_result = None, close_result = None,
      navigation_responses = [], idle_responses = [],
      idle_start = 0, idle_events = [Fire 30000], directory_changes = (\<lambda>d. d),
      save_time = 0\<rparr>"

text \<open>
  A run in which one response of the endpoint is captured during navigation and, while
  the session waits, a subdirectory appears in the output directory under the name of
  the first file \<^verbatim>\<open>saveResponses\<close> is going to write.
\<close>

definition blocked_env :: env where
  "blocked_env =
     quiet_env
       \<lparr>navigation_responses := [(apiEndpoint CONFIG, Inr (lit ''{}''))],
        directory_changes := (\<lambda>d. Some [(fileName 0 0, Dir)])\<rparr>"

section \<open>Properties of the idle detector\<close>

lemma waitForNetworkIdle_state:
  "waitForNetworkIdle T t0 =
     \<lparr>lastRequestTime = t0, idleTimeout = Some 0, timers = [(0, t0 + T)],
      nextHandle = Suc 0, resolveCalls = []\<rparr>"
  by (simp add: waitForNetworkIdle_def setTimeout_def)

text \<open>The two callbacks and the two branches of the check, as state updates.\<close>

lemma onRequest_state:
  "onRequest T now s =
     s\<lparr>lastRequestTime := now,
       timers := filter (\<lambda>(i, d). Some i \<noteq> idleTimeout s) (timers s) @ [(nextHandle s, now + T)],
       nextHandle := Suc (nextHandle s),
       idleTimeout := Some (nextHandle s)\<rparr>"
  by (simp add: onRequest_def clearTimeout_def setTimeout_def)

lemma checkIdle_idle:
  "T \<le> now - lastRequestTime s \<Longrightarrow>
   checkIdle T now s = s\<lparr>resolveCalls := resolveCalls s @ [now]\<rparr>"
  by (simp add: checkIdle_def)

lemma checkIdle_rearm:
  "now - lastRequestTime s < T \<Longrightarrow>
   checkIdle T now s =
     s\<lparr>timers := filter (\<lambda>(i, d). Some i \<noteq> idleTimeout s) (timers s) @ [(nextHandle s, now + T)],
       nextHandle := Suc (nextHandle s),
       idleTimeout := Some (nextHandle s)\<rparr>"
  by (simp add: checkIdle_def clearTimeout_def setTimeout_def)

lemma step_pending:
  assumes "timers s = [] \<or> (\<exists>h d. timers s = [(h, d)] \<and> idleTimeout s = Some h)"
  shows "timers (step T e s) = [] \<or>
         (\<exists>h d. timers (step T e s) = [(h, d)] \<and> idleTimeout (step T e s) = Some h)"
proof (cases e)
  case (Request t)
  with assms show ?thesis
    by (auto simp: onRequest_state)
next
  case (Fire t)
  show ?thesis
  proof (cases "T \<le> t - lastRequestTime s")
    case True
    with Fire assms show ?thesis
      by (auto simp: fireTimer_def checkIdle_idle)
  next
    case False
    with Fire assms show ?thesis
      by (auto simp: fireTimer_def checkIdle_rearm)
  qed
qed

text \<open>
  The pending set of a running detector is empty, or it holds one timer and
  \<^verbatim>\<open>idleTimeout\<close> is its handle. Every callback keeps this.
\<close>

lemma exec_pending:
  assumes "timers s = [] \<or> (\<exists>h d. timers s = [(h, d)] \<and> idleTimeout s = Some h)"
  shows "timers (exec T s es) = [] \<or>
         (\<exists>h d. timers (exec T s es) = [(h, d)] \<and> idleTimeout (exec T s es) = Some h)"
  using assms
proof (induction es arbitrary: s)
  case Nil
  then show ?case by simp
next
  case (Cons e es)
  show ?case
    unfolding exec.simps
    by (rule Cons.IH) (rule step_pending [OF Cons.prems])
qed

lemma reachable_pending:
  "timers (exec T (waitForNetworkIdle T t0) es) = [] \<or>
   (\<exists>h d. timers (exec T (waitForNetworkIdle T t0) es) = [(h, d)] \<and>
          idleTimeout (exec T (waitForNetworkIdle T t0) es) = Some h)"
  by (rule exec_pending) (simp add: waitForNetworkIdle_state)

text \<open>
  Claim C9. At every point of every run of the detector at most one idle check is
  pending, whatever the callbacks and their times, premature fires included; and the
  \<^verbatim>\<open>clearTimeout(idleTimeout)\<close> with which both rescheduling paths begin leaves no check
  pending, whether it runs in \<^verbatim>\<open>onRequest\<close> (second conjunct) or in \<^verbatim>\<open>checkIdle\<close>,
  whose own timer has left the pending set by then (third conjunct), so that the
  \<^verbatim>\<open>setTimeout\<close> that follows arms the only one.
\<close>

theorem at_most_one_pending_check:
  "length (timers (exec T (waitForNetworkIdle T t0) es)) \<le> 1 \<and>
   timers (clearTimeout (idleTimeout (exec T (waitForNetworkIdle T t0) es))
             (exec T (waitForNetworkIdle T t0) es)) = [] \<and>
   timers (clearTimeout (idleTimeout (exec T (waitForNetworkIdle T t0) es))
             ((exec T (waitForNetworkIdle T t0) es)
                \<lparr>timers := tl (timers (exec T (waitForNetworkIdle T t0) es))\<rparr>)) = []"
  using reachable_pending [of T t0 es]
  by (auto simp: clearTimeout_def)

theorem at_most_one_pending_check_witness:
  "length (timers (exec 10 (waitForNetworkIdle 10 0) [Request 3, Fire 5, Request 6])) \<le> 1"
  using at_most_one_pending_check [of 10 0 "[Request 3, Fire 5, Request 6]"]
  by simp

text \<open>
  Claim C2, as the code has it. When the pending check of a running detector fires and
  the time elapsed since \<^verbatim>\<open>lastRequestTime\<close> is strictly below the timeout, the detector
  arms one new check, due a full timeout after the fire (not after the remaining time),
  and stays waiting: \<^verbatim>\<open>resolve()\<close> is not called and \<^verbatim>\<open>lastRequestTime\<close> is unchanged.
\<close>

theorem premature_check_rearms_full_timeout:
  assumes "timers (exec T (waitForNetworkIdle T t0) es) \<noteq> []"
    and "now - lastRequestTime (exec T (waitForNetworkIdle T t0) es) < T"
  shows "timers (fireTimer T now (exec T (waitForNetworkIdle T t0) es)) =
           [(nextHandle (exec T (waitForNetworkIdle T t0) es), now + T)] \<and>
         resolveCalls (fireTimer T now (exec T (waitForNetworkIdle T t0) es)) =
           resolveCalls (exec T (waitForNetworkIdle T t0) es) \<and>
         lastRequestTime (fireTimer T now (exec T (waitForNetworkIdle T t0) es)) =
           lastRequestTime (exec T (waitForNetworkIdle T t0) es)"
  using reachable_pending [of T t0 es] assms
  by (auto simp: fireTimer_def checkIdle_rearm)

theorem premature_check_witness:
  "timers (exec 30000 (waitForNetworkIdle 30000 0) []) \<noteq> [] \<and>
   10000 - lastRequestTime (exec 30000 (waitForNetworkIdle 30000 0) []) < 30000 \<and>
   timers (fireTimer 30000 10000 (exec 30000 (waitForNetworkIdle 30000 0) [])) = [(1, 40000)] \<and>
   resolveCalls (fireTimer 30000 10000 (exec 30000 (waitForNetworkIdle 30000 0) [])) = []"
  using premature_check_rearms_full_timeout [of 30000 0 "[]" 10000]
  by (simp add: waitForNetworkIdle_state)

text \<open>
  The claim as stated fails: started at 0 with timeout 10, a check firing at 5 sees 5 ms
  elapsed; the remaining time is 5 ms, which would make the next check due at 10, and
  the code makes it due at 15.
\<close>

theorem remaining_time_counterexample:
  "5 - lastRequestTime (waitForNetworkIdle 10 0) < 10 \<and>
   map snd (timers (fireTimer 10 5 (waitForNetworkIdle 10 0))) = [5 + 10] \<and>
   (5 + 10 :: int) \<noteq> 5 + (10 - (5 - lastRequestTime (waitForNetworkIdle 10 0)))"
  by (simp add: waitForNetworkIdle_state fireTimer_def checkIdle_rearm)

text \<open>With no request, a waiting detector signals at the first fire that comes a timeout
  or more after \<^verbatim>\<open>lastRequestTime\<close>; every earlier fire re-arms the check.\<close>

lemma exec_append: "exec T s (es @ fs) = exec T (exec T s es) fs"
  by (induction es arbitrary: s) simp_all

lemma request_times_subset: "set (request_times es) \<subseteq> set (map event_time es)"
  by (induction es rule: request_times.induct) auto

lemma exec_no_timer:
  "timers s = [] \<Longrightarrow> request_times es = [] \<Longrightarrow> exec T s es = s"
proof (induction es rule: request_times.induct)
  case (3 t es)
  then show ?case by (simp add: fireTimer_def)
qed simp_all

lemma request_times_fires: "request_times (map Fire ts) = []"
  by (induction ts) simp_all

lemma fires_only:
  assumes "timers s = [(h, d)]" and "idleTimeout s = Some h" and "resolveCalls s = []"
  shows "resolveCalls (exec T s (map Fire ts)) =
           take 1 (filter (\<lambda>t. lastRequestTime s + T \<le> t) ts)"
  using assms
proof (induction ts arbitrary: s h d)
  case Nil
  then show ?case by simp
next
  case (Cons t ts)
  show ?case
  proof (cases "T \<le> t - lastRequestTime s")
    case True
    let ?s1 = "s\<lparr>timers := [], resolveCalls := [t]\<rparr>"
    have "step T (Fire t) s = ?s1"
      using Cons.prems True by (simp add: fireTimer_def checkIdle_idle)
    moreover have "exec T ?s1 (map Fire ts) = ?s1"
      by (rule exec_no_timer) (simp_all add: request_times_fires)
    ultimately show ?thesis
      using True by simp
  next
    case False
    let ?s1 = "fireTimer T t s"
    have s1: "?s1 = s\<lparr>timers := [(nextHandle s, t + T)],
                       nextHandle := Suc (nextHandle s),
                       idleTimeout := Some (nextHandle s)\<rparr>"
      using Cons.prems False by (simp add: fireTimer_def checkIdle_rearm)
    have "resolveCalls (exec T ?s1 (map Fire ts)) =
            take 1 (filter (\<lambda>t. lastRequestTime ?s1 + T \<le> t) ts)"
      by (rule Cons.IH [of _ "nextHandle s" "t + T"]) (simp_all add: s1 Cons.prems)
    then show ?thesis
      using False by (simp add: s1)
  qed
qed

text \<open>
  Claim C7, as the code has it. The detector started at \<open>t0\<close> with timeout \<open>T\<close> has
  armed one check, due at \<open>t0 + T\<close>. With no \<^verbatim>\<open>onRequest\<close> call, whatever the times at
  which the pending check fires, \<^verbatim>\<open>resolve()\<close> is called once, at the first fire that
  comes at \<open>t0 + T\<close> or later. So a check that fires at its due time or later signals
  idle at once, after one timer period; a check that fires before \<open>t0 + T\<close> gives no
  signal and arms a new check a full \<open>T\<close> after that fire.
\<close>

theorem idle_without_requests:
  "timers (waitForNetworkIdle T t0) = [(0, t0 + T)] \<and>
   resolveCalls (exec T (waitForNetworkIdle T t0) (map Fire ts)) =
     take 1 (filter (\<lambda>t. t0 + T \<le> t) ts) \<and>
   (t0 + T \<le> t \<longrightarrow>
      resolveCalls (exec T (waitForNetworkIdle T t0) [Fire t]) = [t] \<and>
      timers (exec T (waitForNetworkIdle T t0) [Fire t]) = []) \<and>
   (t < t0 + T \<longrightarrow>
      resolveCalls (exec T (waitForNetworkIdle T t0) [Fire t]) = [] \<and>
      timers (exec T (waitForNetworkIdle T t0) [Fire t]) = [(1, t + T)])"
proof -
  have "resolveCalls (exec T (waitForNetworkIdle T t0) (map Fire ts)) =
          take 1 (filter (\<lambda>t. lastRequestTime (waitForNetworkIdle T t0) + T \<le> t) ts)"
    by (rule fires_only [of _ 0 "t0 + T"]) (simp_all add: waitForNetworkIdle_state)
  then show ?thesis
    by (simp add: waitForNetworkIdle_state fireTimer_def checkIdle_idle checkIdle_rearm)
qed

theorem idle_without_requests_witness:
  "(0::int) + 30000 \<le> 30000 \<and>
   resolveCalls (exec 30000 (waitForNetworkIdle 30000 0) [Fire 30000]) = [30000] \<and>
   (29999::int) < 0 + 30000 \<and>
   timers (exec 30000 (waitForNetworkIdle 30000 0) [Fire 29999]) = [(1, 59999)] \<and>
   resolveCalls (exec 30000 (waitForNetworkIdle 30000 0) (map Fire [29999, 59999])) = [59999]"
  using idle_without_requests [of 30000 0 "[29999, 59999]" 30000]
    idle_without_requests [of 30000 0 "[29999, 59999]" 29999]
  by simp

text \<open>
  The claim as stated fails when the check armed at the start fires a millisecond
  early: started at 0 with timeout 30000 and no request at all, the fire at 29999 gives
  no signal and re-arms the check for 59999, so that the signal comes only with the
  second check, two timer periods after the start.
\<close>

theorem early_fire_counterexample:
  "request_times [Fire 29999, Fire 59999] = [] \<and>
   resolveCalls (exec 30000 (waitForNetworkIdle 30000 0) [Fire 29999]) = [] \<and>
   timers (exec 30000 (waitForNetworkIdle 30000 0) [Fire 29999]) = [(1, 59999)] \<and>
   resolveCalls (exec 30000 (waitForNetworkIdle 30000 0) [Fire 29999, Fire 59999]) = [59999]"
  by (simp add: waitForNetworkIdle_state fireTimer_def checkIdle_idle checkIdle_rearm)

text \<open>Runs of the detector while it waits.\<close>

lemma gaps_below_first:
  "gaps_below T (x # ts) \<Longrightarrow> ts \<noteq> [] \<Longrightarrow> hd ts - x < T"
  by (cases ts) simp_all

lemma waiting_run:
  assumes "\<exists>h d. timers s = [(h, d)] \<and> idleTimeout s = Some h"
    and "resolveCalls s = []"
    and "sorted (c # map event_time es)"
    and "lastRequestTime s \<le> c"
    and "gaps_below T (lastRequestTime s # request_times es)"
  shows "lastRequestTime (exec T s es) = last (lastRequestTime s # request_times es) \<and>
         (resolveCalls (exec T s es) = [] \<and>
            (\<exists>h d. timers (exec T s es) = [(h, d)] \<and> idleTimeout (exec T s es) = Some h)
          \<or> (\<exists>t. resolveCalls (exec T s es) = [t] \<and>
                 last (lastRequestTime s # request_times es) + T \<le> t \<and>
                 timers (exec T s es) = []))"
  using assms
proof (induction es arbitrary: s c)
  case Nil
  then show ?case by simp
next
  case (Cons e es)
  show ?case
  proof (cases e)
    case (Request t)
    let ?s1 = "onRequest T t s"
    have 1: "\<exists>h d. timers ?s1 = [(h, d)] \<and> idleTimeout ?s1 = Some h"
      using Cons.prems(1) by (auto simp: onRequest_state)
    have 2: "resolveCalls ?s1 = []"
      using Cons.prems(2) by (simp add: onRequest_state)
    have 3: "sorted (t # map event_time es)"
      using Cons.prems(3) Request by simp
    have 4: "lastRequestTime ?s1 \<le> t"
      by (simp add: onRequest_state)
    have 5: "gaps_below T (lastRequestTime ?s1 # request_times es)"
      using Cons.prems(5) Request by (simp add: onRequest_state)
    from Cons.IH [OF 1 2 3 4 5] show ?thesis
      using Request by (simp add: onRequest_state)
  next
    case (Fire t)
    from Cons.prems(1) obtain h d where hd: "timers s = [(h, d)]" "idleTimeout s = Some h"
      by blast
    show ?thesis
    proof (cases "T \<le> t - lastRequestTime s")
      case True
      let ?s1 = "s\<lparr>timers := [], resolveCalls := [t]\<rparr>"
      have s1: "step T e s = ?s1"
        using Fire hd True Cons.prems(2) by (simp add: fireTimer_def checkIdle_idle)
      have none: "request_times es = []"
      proof (rule ccontr)
        assume ne: "request_times es \<noteq> []"
        then have "hd (request_times es) - lastRequestTime s < T"
          using Cons.prems(5) Fire by (simp add: gaps_below_first)
        moreover have "hd (request_times es) \<in> set (map event_time es)"
          using ne request_times_subset [of es] by (metis hd_in_set subsetD)
        then have "t \<le> hd (request_times es)"
          using Cons.prems(3) Fire by auto
        ultimately show False using True by linarith
      qed
      have "exec T ?s1 es = ?s1"
        by (rule exec_no_timer) (simp_all add: none)
      then show ?thesis
        using s1 Fire none True by simp
    next
      case False
      let ?s1 = "fireTimer T t s"
      have s1: "?s1 = s\<lparr>timers := [(nextHandle s, t + T)],
                         nextHandle := Suc (nextHandle s),
                         idleTimeout := Some (nextHandle s)\<rparr>"
        using hd False by (simp add: fireTimer_def checkIdle_rearm)
      have 1: "\<exists>h d. timers ?s1 = [(h, d)] \<and> idleTimeout ?s1 = Some h"
        by (simp add: s1)
      have 2: "resolveCalls ?s1 = []"
        using Cons.prems(2) by (simp add: s1)
      have 3: "sorted (t # map event_time es)"
        using Cons.prems(3) Fire by simp
      have 4: "lastRequestTime ?s1 \<le> t"
        using Cons.prems(3,4) Fire by (simp add: s1)
      have 5: "gaps_below T (lastRequestTime ?s1 # request_times es)"
        using Cons.prems(5) Fire by (simp add: s1)
      from Cons.IH [OF 1 2 3 4 5] show ?thesis
        using Fire by (simp add: s1)
    qed
  qed
qed

text \<open>
  Claim C3, as the code has it. Let the clock not run backwards, let the first
  \<^verbatim>\<open>onRequest\<close> call come less than \<open>T\<close> after the start and every later one less
  than \<open>T\<close> after the one before. Then \<^verbatim>\<open>resolve()\<close> is called at most once during
  the run, never before the last \<^verbatim>\<open>onRequest\<close> call plus \<open>T\<close>; and once the pending
  check fires at or after that time, \<^verbatim>\<open>resolve()\<close> has been called exactly once.
\<close>

theorem idle_signal_once_after_last_request:
  assumes "chronological t0 es"
    and "gaps_below T (t0 # request_times es)"
  shows "(\<forall>t \<in> set (resolveCalls (exec T (waitForNetworkIdle T t0) es)).
            last (t0 # request_times es) + T \<le> t) \<and>
         length (resolveCalls (exec T (waitForNetworkIdle T t0) es)) \<le> 1 \<and>
         (\<forall>t. last (t0 # request_times es) + T \<le> t \<longrightarrow>
              (\<exists>u. resolveCalls (exec T (waitForNetworkIdle T t0) (es @ [Fire t])) = [u] \<and>
                   last (t0 # request_times es) + T \<le> u))"
proof -
  let ?s = "waitForNetworkIdle T t0"
  have run: "lastRequestTime (exec T ?s es) = last (lastRequestTime ?s # request_times es) \<and>
         (resolveCalls (exec T ?s es) = [] \<and>
            (\<exists>h d. timers (exec T ?s es) = [(h, d)] \<and> idleTimeout (exec T ?s es) = Some h)
          \<or> (\<exists>t. resolveCalls (exec T ?s es) = [t] \<and>
                 last (lastRequestTime ?s # request_times es) + T \<le> t \<and>
                 timers (exec T ?s es) = []))"
    by (rule waiting_run [where c = t0])
       (use assms in \<open>simp_all add: waitForNetworkIdle_state chronological_def\<close>)
  have L: "lastRequestTime ?s = t0"
    by (simp add: waitForNetworkIdle_state)
  have a: "\<forall>t \<in> set (resolveCalls (exec T ?s es)). last (t0 # request_times es) + T \<le> t"
    using run L by auto
  have b: "length (resolveCalls (exec T ?s es)) \<le> 1"
    using run by auto
  have c: "\<exists>u. resolveCalls (exec T ?s (es @ [Fire t])) = [u] \<and>
                last (t0 # request_times es) + T \<le> u"
    if t: "last (t0 # request_times es) + T \<le> t" for t
  proof -
    have e: "exec T ?s (es @ [Fire t]) = fireTimer T t (exec T ?s es)"
      by (simp add: exec_append)
    from run L consider
      (waiting) h d where "resolveCalls (exec T ?s es) = []"
        "timers (exec T ?s es) = [(h, d)]"
        "lastRequestTime (exec T ?s es) = last (t0 # request_times es)"
      | (idle) u where "resolveCalls (exec T ?s es) = [u]"
        "last (t0 # request_times es) + T \<le> u" "timers (exec T ?s es) = []"
      by auto
    then show ?thesis
    proof cases
      case waiting
      then show ?thesis
        using t by (simp add: e fireTimer_def checkIdle_idle)
    next
      case idle
      then show ?thesis
        by (simp add: e fireTimer_def)
    qed
  qed
  from a b c show ?thesis by blast
qed

theorem idle_signal_once_witness:
  "chronological 0 [Request 4, Request 9, Fire 19] \<and>
   gaps_below 10 (0 # request_times [Request 4, Request 9, Fire 19]) \<and>
   resolveCalls (exec 10 (waitForNetworkIdle 10 0) [Request 4, Request 9, Fire 19]) = [19]"
  using idle_signal_once_after_last_request [of 0 "[Request 4, Request 9, Fire 19]" 10]
  by (simp add: chronological_def waitForNetworkIdle_state onRequest_state fireTimer_def
      checkIdle_idle)

text \<open>
  The claim as stated, with the gaps between the calls only, fails: started at 0 with
  timeout 10 and no request in the first 10 ms, the check armed at the start fires at 10
  and signals idle; a first \<^verbatim>\<open>onRequest\<close> call at 50 comes after the signal, which was
  therefore given before 50 + 10.
\<close>

theorem first_request_after_idle_counterexample:
  "chronological 0 [Fire 10, Request 50] \<and>
   gaps_below 10 (request_times [Fire 10, Request 50]) \<and>
   resolveCalls (exec 10 (waitForNetworkIdle 10 0) [Fire 10, Request 50]) = [10] \<and>
   \<not> last (request_times [Fire 10, Request 50]) + 10 \<le> (10::int)"
  by (simp add: chronological_def waitForNetworkIdle_state onRequest_state fireTimer_def
      checkIdle_idle)

section \<open>Properties of strings and file names\<close>

text \<open>\<^verbatim>\<open>includes\<close> is containment of a contiguous run; a string trims to a non-empty
  one exactly when it has a code unit that is not white space.\<close>

lemma startsWith_iff: "startsWith s p \<longleftrightarrow> (\<exists>c. s = p @ c)"
  by (induction s p rule: startsWith.induct) auto

lemma includes_js_iff: "includes_js s p \<longleftrightarrow> (\<exists>a c. s = a @ p @ c)"
proof (induction s)
  case Nil
  then show ?case by (simp add: startsWith_iff)
next
  case (Cons x s)
  show ?case
  proof
    assume "includes_js (x # s) p"
    then consider "startsWith (x # s) p" | "includes_js s p" by auto
    then show "\<exists>a c. x # s = a @ p @ c"
    proof cases
      case 1
      then obtain c where "x # s = p @ c" by (auto simp: startsWith_iff)
      then have "x # s = [] @ p @ c" by simp
      then show ?thesis by blast
    next
      case 2
      then obtain a c where "s = a @ p @ c" using Cons.IH by blast
      then have "x # s = (x # a) @ p @ c" by simp
      then show ?thesis by blast
    qed
  next
    assume "\<exists>a c. x # s = a @ p @ c"
    then obtain a c where ac: "x # s = a @ p @ c" by blast
    show "includes_js (x # s) p"
    proof (cases a)
      case Nil
      with ac have "startsWith (x # s) p" by (auto simp: startsWith_iff)
      then show ?thesis by simp
    next
      case (Cons y a')
      with ac have "s = a' @ p @ c" by simp
      then have "includes_js s p" using Cons.IH by blast
      then show ?thesis by simp
    qed
  qed
qed

lemma trim_nonempty_iff: "trim b \<noteq> [] \<longleftrightarrow> (\<exists>u \<in> set b. \<not> isWhiteSpace u)"
proof
  assume "trim b \<noteq> []"
  then have "dropWhile isWhiteSpace b \<noteq> []"
    by (cases "dropWhile isWhiteSpace b = []") (simp_all add: trim_def)
  then show "\<exists>u \<in> set b. \<not> isWhiteSpace u"
    by (simp add: dropWhile_eq_Nil_conv)
next
  assume "\<exists>u \<in> set b. \<not> isWhiteSpace u"
  then have ne: "dropWhile isWhiteSpace b \<noteq> []"
    by (auto simp: dropWhile_eq_Nil_conv)
  then have "\<not> isWhiteSpace (hd (dropWhile isWhiteSpace b))"
    by (rule hd_dropWhile)
  moreover have "hd (dropWhile isWhiteSpace b) \<in> set (rev (dropWhile isWhiteSpace b))"
    using ne by simp
  ultimately have "dropWhile isWhiteSpace (rev (dropWhile isWhiteSpace b)) \<noteq> []"
    by (auto simp: dropWhile_eq_Nil_conv)
  then show "trim b \<noteq> []"
    by (simp add: trim_def)
qed

text \<open>The decimal rendering is injective, hence so are the file names of one session.\<close>

lemma digit_inj: "a < 10 \<Longrightarrow> b < 10 \<Longrightarrow> digit a = digit b \<Longrightarrow> a = b"
  by (simp add: digit_def word_of_nat_eq_iff take_bit_nat_eq_self)

lemma decimal_small: "n < 10 \<Longrightarrow> decimal n = [digit n]"
  by (subst decimal.simps) simp

lemma decimal_big: "\<not> n < 10 \<Longrightarrow> decimal n = decimal (n div 10) @ [digit (n mod 10)]"
  by (subst decimal.simps) simp

lemma decimal_nonempty: "decimal n \<noteq> []"
  by (cases "n < 10") (simp_all add: decimal_small decimal_big)


lemma decimal_inj: "decimal m = decimal n \<Longrightarrow> m = n"
proof (induction m arbitrary: n rule: decimal.induct)
  case (1 m)
  show ?case
  proof (cases "m < 10")
    case small_m: True
    show ?thesis
    proof (cases "n < 10")
      case True
      with small_m "1.prems" show ?thesis
        by (simp add: decimal_small digit_inj)
    next
      case False
      with small_m "1.prems" show ?thesis
        using decimal_nonempty [of "n div 10"] by (simp add: decimal_small decimal_big)
    qed
  next
    case big_m: False
    show ?thesis
    proof (cases "n < 10")
      case True
      with big_m "1.prems" show ?thesis
        using decimal_nonempty [of "m div 10"] by (simp add: decimal_small decimal_big)
    next
      case False
      with big_m "1.prems" have eq: "decimal (m div 10) = decimal (n div 10)"
        and d: "digit (m mod 10) = digit (n mod 10)"
        by (simp_all add: decimal_big)
      from eq have "m div 10 = n div 10"
        using "1.IH" big_m by simp
      moreover from d have "m mod 10 = n mod 10"
        by (simp add: digit_inj)
      ultimately show ?thesis
        by (metis div_mult_mod_eq)
    qed
  qed
qed

lemma fileName_inj: "fileName i ts = fileName j ts \<Longrightarrow> i = j"
  by (simp add: fileName_def numberToString_def decimal_inj)

lemma fileName_eq_iff: "fileName i ts = fileName j ts \<longleftrightarrow> i = j"
  using fileName_inj by blast

lemma fileNames_distinct: "distinct (map (\<lambda>k. fileName k ts) [0..<K])"
  by (simp add: distinct_map inj_on_def) (metis fileName_inj)

section \<open>Properties of the output store\<close>

lemma map_of_put_entry:
  "map_of (put_entry n y es) m = (if m = n then Some y else map_of es m)"
  by (induction es) auto

lemma entry_write:
  "writeFileSync n data d = Inr d' \<Longrightarrow>
   d' \<noteq> None \<and> entry d' m = (if m = n then Some (File data) else entry d m)"
  by (auto simp: writeFileSync_def entry_def map_of_put_entry
      split: option.splits node.splits)

lemma write_blocked:
  "entry d n = Some Dir \<Longrightarrow> writeFileSync n data d = Inl (EISDIR n)"
  by (auto simp: writeFileSync_def entry_def split: option.splits)

lemma write_free:
  "d \<noteq> None \<Longrightarrow> entry d n \<noteq> Some Dir \<Longrightarrow> \<exists>d'. writeFileSync n data d = Inr d'"
  by (auto simp: writeFileSync_def entry_def split: option.splits node.splits)

text \<open>
  The cleaning loop walks the listing of the directory it is emptying, so each
  \<^verbatim>\<open>unlinkSync\<close> meets its entry at the head: plain files go one by one, and the first
  subdirectory stops the loop.
\<close>

lemma unlink_loop_files:
  "\<forall>(n, x) \<in> set es. x \<noteq> Dir \<Longrightarrow> unlink_loop (map fst es) (Some es) = (None, Some [])"
proof (induction es)
  case Nil
  then show ?case by simp
next
  case (Cons e es)
  obtain n x where e: "e = (n, x)" by (cases e)
  with Cons.prems obtain data where x: "x = File data" by (cases x) auto
  have "unlinkSync n (Some (e # es)) = Inr (Some es)"
    by (simp add: e x unlinkSync_def)
  then show ?case
    using Cons by (simp add: e)
qed

lemma unlink_loop_dir:
  "(n, Dir) \<in> set es \<Longrightarrow>
   \<exists>m d'. unlink_loop (map fst es) (Some es) = (Some (EISDIR m), d') \<and> (m, Dir) \<in> set es"
proof (induction es)
  case Nil
  then show ?case by simp
next
  case (Cons e es)
  obtain k x where e: "e = (k, x)" by (cases e)
  show ?case
  proof (cases x)
    case (File data)
    have u: "unlinkSync k (Some (e # es)) = Inr (Some es)"
      by (simp add: e File unlinkSync_def)
    from Cons.prems e File have "(n, Dir) \<in> set es" by auto
    from Cons.IH [OF this] show ?thesis
      using u by (auto simp: e)
  next
    case Dir
    have "unlinkSync k (Some (e # es)) = Inl (EISDIR k)"
      by (simp add: e Dir unlinkSync_def)
    then show ?thesis
      by (auto simp: e Dir)
  qed
qed

text \<open>
  The writing loop from index \<open>i\<close>, where \<open>j\<close> is the index of the first write that
  is refused (the length of \<^verbatim>\<open>responses\<close> when none is): the files \<open>i\<close> to \<open>j - 1\<close>
  hold their payloads, every other entry is as before, and the refusal is the result.
\<close>

lemma write_loop_run:
  assumes "i \<le> j" and "j \<le> length rs" and "d \<noteq> None"
    and "\<forall>k. i \<le> k \<and> k < j \<longrightarrow> entry d (fileName k ts) \<noteq> Some Dir"
    and "j < length rs \<longrightarrow> entry d (fileName j ts) = Some Dir"
  shows "\<exists>d'. write_loop ts rs i d =
                 (if j < length rs then Some (EISDIR (fileName j ts)) else None, d') \<and>
              d' \<noteq> None \<and>
              (\<forall>k. i \<le> k \<and> k < j \<longrightarrow> entry d' (fileName k ts) = Some (File (rs ! k))) \<and>
              (\<forall>n. (\<forall>k. i \<le> k \<and> k < j \<longrightarrow> n \<noteq> fileName k ts) \<longrightarrow> entry d' n = entry d n)"
  using assms
proof (induction "j - i" arbitrary: i d)
  case 0
  then have ij: "i = j" by simp
  show ?case
  proof (cases "j < length rs")
    case True
    with 0 ij have "writeFileSync (fileName i ts) (rs ! i) d = Inl (EISDIR (fileName i ts))"
      by (simp add: write_blocked)
    with True ij show ?thesis
      using "0.prems"(3) by (subst write_loop.simps) auto
  next
    case False
    with ij show ?thesis
      using "0.prems"(2,3) by (subst write_loop.simps) auto
  qed
next
  case (Suc m)
  then have lt: "i < j" and ilen: "i < length rs" by simp_all
  from Suc.prems lt have free: "entry d (fileName i ts) \<noteq> Some Dir" by simp
  from write_free [OF Suc.prems(3) free] obtain d1
    where w: "writeFileSync (fileName i ts) (rs ! i) d = Inr d1" by blast
  note e1 = entry_write [OF w]
  have 1: "m = j - Suc i" using Suc.hyps(2) by simp
  have 2: "Suc i \<le> j" using lt by simp
  have 4: "\<forall>k. Suc i \<le> k \<and> k < j \<longrightarrow> entry d1 (fileName k ts) \<noteq> Some Dir"
  proof (intro allI impI)
    fix k assume k: "Suc i \<le> k \<and> k < j"
    then have "fileName k ts \<noteq> fileName i ts"
      using fileName_inj [of k ts i] by auto
    then have "entry d1 (fileName k ts) = entry d (fileName k ts)"
      using e1 by simp
    then show "entry d1 (fileName k ts) \<noteq> Some Dir"
      using Suc.prems(4) k by simp
  qed
  have 5: "j < length rs \<longrightarrow> entry d1 (fileName j ts) = Some Dir"
  proof
    assume "j < length rs"
    moreover have "fileName j ts \<noteq> fileName i ts"
      using fileName_inj [of j ts i] lt by auto
    ultimately show "entry d1 (fileName j ts) = Some Dir"
      using e1 Suc.prems(5) by simp
  qed
  from Suc.hyps(1) [OF 1 2 Suc.prems(2) conjunct1 [OF e1] 4 5]
  obtain d' where
    run: "write_loop ts rs (Suc i) d1 =
            (if j < length rs then Some (EISDIR (fileName j ts)) else None, d')"
    and ne: "d' \<noteq> None"
    and files: "\<forall>k. Suc i \<le> k \<and> k < j \<longrightarrow> entry d' (fileName k ts) = Some (File (rs ! k))"
    and rest: "\<forall>n. (\<forall>k. Suc i \<le> k \<and> k < j \<longrightarrow> n \<noteq> fileName k ts) \<longrightarrow> entry d' n = entry d1 n"
    by blast
  have here: "write_loop ts rs i d = write_loop ts rs (Suc i) d1"
    using ilen w by (subst write_loop.simps) simp
  have first: "entry d' (fileName i ts) = Some (File (rs ! i))"
  proof -
    have "\<forall>k. Suc i \<le> k \<and> k < j \<longrightarrow> fileName i ts \<noteq> fileName k ts"
      using fileName_inj [of i ts] by auto
    then have "entry d' (fileName i ts) = entry d1 (fileName i ts)"
      using rest by blast
    then show ?thesis using e1 by simp
  qed
  have files': "\<forall>k. i \<le> k \<and> k < j \<longrightarrow> entry d' (fileName k ts) = Some (File (rs ! k))"
  proof (intro allI impI)
    fix k assume k: "i \<le> k \<and> k < j"
    show "entry d' (fileName k ts) = Some (File (rs ! k))"
    proof (cases "k = i")
      case True
      then show ?thesis using first by simp
    next
      case False
      with k have "Suc i \<le> k \<and> k < j" by simp
      then show ?thesis using files by blast
    qed
  qed
  have rest': "\<forall>n. (\<forall>k. i \<le> k \<and> k < j \<longrightarrow> n \<noteq> fileName k ts) \<longrightarrow> entry d' n = entry d n"
  proof (intro allI impI)
    fix n assume n: "\<forall>k. i \<le> k \<and> k < j \<longrightarrow> n \<noteq> fileName k ts"
    then have "n \<noteq> fileName i ts" using lt by auto
    moreover from n have "\<forall>k. Suc i \<le> k \<and> k < j \<longrightarrow> n \<noteq> fileName k ts" by auto
    ultimately show "entry d' n = entry d n"
      using rest e1 by simp
  qed
  from run here ne files' rest' show ?case by simp
qed


lemma entry_mkdir:
  "entry (if \<not> existsSync d then mkdirSync d else d) n = entry d n \<and>
   (if \<not> existsSync d then mkdirSync d else d) \<noteq> None"
  by (cases d) (simp_all add: existsSync_def mkdirSync_def entry_def)

lemma save_run:
  assumes "j \<le> length rs"
    and "\<forall>k<j. entry d (fileName k ts) \<noteq> Some Dir"
    and "j < length rs \<longrightarrow> entry d (fileName j ts) = Some Dir"
  shows "\<exists>d'. saveResponses ts rs d =
                 (if j < length rs then Some (EISDIR (fileName j ts)) else None, d') \<and>
              d' \<noteq> None \<and>
              (\<forall>k<j. entry d' (fileName k ts) = Some (File (rs ! k))) \<and>
              (\<forall>n. n \<notin> (\<lambda>k. fileName k ts) ` {..<j} \<longrightarrow> entry d' n = entry d n)"
proof -
  let ?d1 = "if \<not> existsSync d then mkdirSync d else d"
  have ent: "entry ?d1 n = entry d n" for n
    using entry_mkdir [of d n] by simp
  have ne: "?d1 \<noteq> None"
    using entry_mkdir [of d] by simp
  have "\<exists>d'. write_loop ts rs 0 ?d1 =
                 (if j < length rs then Some (EISDIR (fileName j ts)) else None, d') \<and>
              d' \<noteq> None \<and>
              (\<forall>k. 0 \<le> k \<and> k < j \<longrightarrow> entry d' (fileName k ts) = Some (File (rs ! k))) \<and>
              (\<forall>n. (\<forall>k. 0 \<le> k \<and> k < j \<longrightarrow> n \<noteq> fileName k ts) \<longrightarrow> entry d' n = entry ?d1 n)"
    by (rule write_loop_run) (use assms ne in \<open>simp_all only: ent le0 simp_thms\<close>)
  then obtain d' where
    run: "write_loop ts rs 0 ?d1 =
            (if j < length rs then Some (EISDIR (fileName j ts)) else None, d')"
    and ex: "d' \<noteq> None"
    and files: "\<forall>k. 0 \<le> k \<and> k < j \<longrightarrow> entry d' (fileName k ts) = Some (File (rs ! k))"
    and rest: "\<forall>n. (\<forall>k. 0 \<le> k \<and> k < j \<longrightarrow> n \<noteq> fileName k ts) \<longrightarrow> entry d' n = entry ?d1 n"
    by blast
  have "saveResponses ts rs d =
          (if j < length rs then Some (EISDIR (fileName j ts)) else None, d')"
    using run by (simp add: saveResponses_def)
  moreover have "\<forall>k<j. entry d' (fileName k ts) = Some (File (rs ! k))"
    using files by simp
  moreover have "\<forall>n. n \<notin> (\<lambda>k. fileName k ts) ` {..<j} \<longrightarrow> entry d' n = entry d n"
  proof (intro allI impI)
    fix n assume "n \<notin> (\<lambda>k. fileName k ts) ` {..<j}"
    then have "\<forall>k. 0 \<le> k \<and> k < j \<longrightarrow> n \<noteq> fileName k ts" by auto
    then show "entry d' n = entry d n" using rest ent by simp
  qed
  ultimately show ?thesis using ex by blast
qed

text \<open>
  Claim C5. Let \<open>K\<close> payloads be saved with timestamp \<open>ts\<close>, and let \<open>j\<close> be the
  index of the first write that fails (its name is taken by a subdirectory), \<open>j = K\<close>
  when none fails. The \<open>K\<close> names \<^verbatim>\<open>response_<k>_<ts>.json\<close> are distinct and share
  the timestamp. After the call the directory exists, the file with index \<open>k\<close> holds
  payload \<open>k\<close> of the capture sequence for every \<open>k < j\<close>, and every other entry is
  as it was before: with no failure these are exactly the \<open>K\<close> files, in capture
  order by index, and the call returns normally; on a failure the writes from \<open>j\<close> on
  are not made and the error of write \<open>j\<close> is thrown.
\<close>

theorem save_writes_in_capture_order:
  assumes "j \<le> length rs"
    and "\<forall>k<j. entry d (fileName k ts) \<noteq> Some Dir"
    and "j < length rs \<longrightarrow> entry d (fileName j ts) = Some Dir"
  shows "\<exists>d'. saveResponses ts rs d =
                 (if j < length rs then Some (EISDIR (fileName j ts)) else None, d') \<and>
              d' \<noteq> None \<and>
              (\<forall>k<j. entry d' (fileName k ts) = Some (File (rs ! k))) \<and>
              (\<forall>n. n \<notin> (\<lambda>k. fileName k ts) ` {..<j} \<longrightarrow> entry d' n = entry d n) \<and>
              distinct (map (\<lambda>k. fileName k ts) [0..<length rs])"
  using save_run [OF assms] fileNames_distinct [of ts "length rs"] by blast

theorem save_writes_witness:
  "((1::nat) \<le> length [lit ''a'', lit ''b''] \<and>
    entry (Some [(fileName 1 5, Dir)]) (fileName 0 5) \<noteq> Some Dir \<and>
    entry (Some [(fileName 1 5, Dir)]) (fileName 1 5) = Some Dir \<and>
    (\<exists>d'. saveResponses 5 [lit ''a'', lit ''b''] (Some [(fileName 1 5, Dir)]) =
            (Some (EISDIR (fileName 1 5)), d') \<and>
          entry d' (fileName 0 5) = Some (File (lit ''a'')))) \<and>
   (fileName 0 5 = lit ''response_0_5.json'' \<and>
    fileName 1 5 = lit ''response_1_5.json'')"
proof
  show "(1::nat) \<le> length [lit ''a'', lit ''b''] \<and>
    entry (Some [(fileName 1 5, Dir)]) (fileName 0 5) \<noteq> Some Dir \<and>
    entry (Some [(fileName 1 5, Dir)]) (fileName 1 5) = Some Dir \<and>
    (\<exists>d'. saveResponses 5 [lit ''a'', lit ''b''] (Some [(fileName 1 5, Dir)]) =
            (Some (EISDIR (fileName 1 5)), d') \<and>
          entry d' (fileName 0 5) = Some (File (lit ''a'')))"
    using save_writes_in_capture_order
      [of 1 "[lit ''a'', lit ''b'']" "Some [(fileName 1 5, Dir)]" 5]
    by (auto simp: entry_def fileName_eq_iff)
next
  show "fileName 0 5 = lit ''response_0_5.json'' \<and>
    fileName 1 5 = lit ''response_1_5.json''"
    by (simp add: fileName_def numberToString_def decimal_small digit_def lit_def)
qed

text \<open>
  Claim C4, as the code has it. The response observer appends the body to the capture
  sequence if and only if the request URL contains the configured endpoint and the body
  was read and has a code unit that is not white space (the guard is
  \<^verbatim>\<open>responseText.trim()\<close>, so a body of white space only is dropped like an empty one);
  what it appends is the body as read, untrimmed. When no write fails, \<^verbatim>\<open>saveResponses\<close>
  leaves payload \<open>k\<close> of the sequence, unchanged, as the contents of the file with
  index \<open>k\<close>.
\<close>

theorem response_captured_iff_match_and_not_blank:
  "onResponse cfg url text rs =
     (case text of
        Inl err \<Rightarrow> rs
      | Inr body \<Rightarrow>
          if (\<exists>a c. url = a @ apiEndpoint cfg @ c) \<and> (\<exists>u \<in> set body. \<not> isWhiteSpace u)
          then rs @ [body] else rs) \<and>
   ((\<forall>k<length rs. entry d (fileName k ts) \<noteq> Some Dir) \<longrightarrow>
      (\<exists>d'. saveResponses ts rs d = (None, d') \<and>
            (\<forall>k<length rs. entry d' (fileName k ts) = Some (File (rs ! k)))))"
proof
  show "onResponse cfg url text rs =
     (case text of
        Inl err \<Rightarrow> rs
      | Inr body \<Rightarrow>
          if (\<exists>a c. url = a @ apiEndpoint cfg @ c) \<and> (\<exists>u \<in> set body. \<not> isWhiteSpace u)
          then rs @ [body] else rs)"
    by (cases "text")
       (simp_all add: onResponse_def includes_js_iff [symmetric] trim_nonempty_iff [symmetric])
next
  show "(\<forall>k<length rs. entry d (fileName k ts) \<noteq> Some Dir) \<longrightarrow>
      (\<exists>d'. saveResponses ts rs d = (None, d') \<and>
            (\<forall>k<length rs. entry d' (fileName k ts) = Some (File (rs ! k))))"
  proof
    assume "\<forall>k<length rs. entry d (fileName k ts) \<noteq> Some Dir"
    then show "\<exists>d'. saveResponses ts rs d = (None, d') \<and>
            (\<forall>k<length rs. entry d' (fileName k ts) = Some (File (rs ! k)))"
      using save_run [of "length rs" rs d ts] by auto
  qed
qed

theorem response_captured_witness:
  "entry None (fileName 0 7) \<noteq> Some Dir \<and>
   onResponse CONFIG (apiEndpoint CONFIG) (Inr (lit ''[1]'')) [lit ''{}''] =
     [lit ''{}'', lit ''[1]''] \<and>
   (\<exists>d'. saveResponses 7 [lit ''{}''] None = (None, d') \<and>
         entry d' (fileName 0 7) = Some (File (lit ''{}'')))"
  using response_captured_iff_match_and_not_blank
    [of CONFIG "apiEndpoint CONFIG" "Inr (lit ''[1]'')" "[lit ''{}'']" None 7]
  by (simp add: entry_def onResponse_def CONFIG_def lit_def trim_def isWhiteSpace_def)

text \<open>
  The claim as stated fails on a body of one space: the URL contains the endpoint and
  the body is not empty, and nothing is appended.
\<close>

theorem blank_body_counterexample:
  "includes_js (apiEndpoint CONFIG) (apiEndpoint CONFIG) \<and>
   lit '' '' \<noteq> [] \<and>
   onResponse CONFIG (apiEndpoint CONFIG) (Inr (lit '' '')) [] = []"
  by (simp add: onResponse_def CONFIG_def lit_def trim_def isWhiteSpace_def)

lemma save_creates_directory: "\<exists>es. saveResponses ts rs None = (None, Some es)"
  using save_run [of "length rs" rs None ts] by (auto simp: entry_def)

text \<open>
  Claim C6. \<^verbatim>\<open>prepareOutputDirectory\<close> on a directory whose entries are all plain
  files, however many, returns normally and leaves the directory with no entry; likewise
  on the empty directory; on a missing directory it returns normally and the directory
  is still missing, and it is the \<^verbatim>\<open>saveResponses\<close> that follows that creates it.
\<close>

theorem prepare_empties_directory:
  "((\<forall>(n, x) \<in> set es. x \<noteq> Dir) \<longrightarrow> prepareOutputDirectory (Some es) = (None, Some [])) \<and>
   prepareOutputDirectory (Some []) = (None, Some []) \<and>
   prepareOutputDirectory None = (None, None) \<and>
   (\<exists>es'. saveResponses ts rs (snd (prepareOutputDirectory None)) = (None, Some es'))"
  using save_creates_directory [of ts rs]
  by (simp add: prepareOutputDirectory_def existsSync_def readdirSync_def unlink_loop_files)

theorem prepare_empties_witness:
  "File (lit ''x'') \<noteq> Dir \<and> File [] \<noteq> Dir \<and>
   prepareOutputDirectory (Some [(lit ''old.json'', File (lit ''x'')), (lit ''b'', File [])]) =
     (None, Some [])"
  using prepare_empties_directory
    [of "[(lit ''old.json'', File (lit ''x'')), (lit ''b'', File [])]"]
  by simp

lemma prepare_ok_iff:
  "fst (prepareOutputDirectory d) = None \<longleftrightarrow>
   (\<forall>es. d = Some es \<longrightarrow> (\<forall>(n, x) \<in> set es. x \<noteq> Dir))"
proof (cases d)
  case None
  then show ?thesis
    by (simp add: prepareOutputDirectory_def existsSync_def)
next
  case (Some es)
  show ?thesis
  proof (cases "\<forall>(n, x) \<in> set es. x \<noteq> Dir")
    case True
    then show ?thesis
      using Some
      by (simp add: prepareOutputDirectory_def existsSync_def readdirSync_def unlink_loop_files)
  next
    case False
    then obtain n where "(n, Dir) \<in> set es" by auto
    from unlink_loop_dir [OF this] False show ?thesis
      using Some
      by (auto simp: prepareOutputDirectory_def existsSync_def readdirSync_def)
  qed
qed

lemma prepare_dir:
  "(n, Dir) \<in> set es \<Longrightarrow>
   \<exists>m d'. prepareOutputDirectory (Some es) = (Some (EISDIR m), d') \<and> (m, Dir) \<in> set es"
  using unlink_loop_dir [of n es]
  by (simp add: prepareOutputDirectory_def existsSync_def readdirSync_def)

section \<open>Properties of the capture session\<close>

lemma try_block_prepare_throws:
  assumes "launch_result e = None" "newPage_result e = None" "createCDPSession_result e = None"
    and "prepareOutputDirectory d0 = (Some err, d')"
  shows "try_block cfg e (initial_world d0) =
          (Throw err,
           \<lparr>actions = [Launch, NewPage, CreateCDPSession, PrepareOutputDirectory],
            dir = d', responses = [], browser = True\<rparr>)"
  using assms by (simp add: try_block_def initial_world_def act_def)

lemma main_prepare_throws:
  assumes "launch_result e = None" "newPage_result e = None" "createCDPSession_result e = None"
    and "prepareOutputDirectory d0 = (Some err, d')"
  shows "snd (main cfg e d0) =
           \<lparr>actions = [Launch, NewPage, CreateCDPSession, PrepareOutputDirectory,
                       LogError err, CloseBrowser],
            dir = d', responses = [], browser = True\<rparr>"
  using try_block_prepare_throws [OF assms, of cfg]
  by (simp add: main_def act_def Let_def split: option.splits)

text \<open>
  Nothing in the \<^verbatim>\<open>try\<close> block closes the browser, and \<^verbatim>\<open>browser\<close> is assigned exactly
  when the launch fulfils. From this, how \<^verbatim>\<open>main\<close> settles and what it has done by then.
\<close>

lemma try_block_trace:
  "CloseBrowser \<notin> set (actions (snd (try_block cfg e (initial_world d0)))) \<and>
   browser (snd (try_block cfg e (initial_world d0))) = (launch_result e = None)"
  by (simp add: try_block_def initial_world_def act_def deliver_def Let_def
      split: option.splits prod.splits)

lemma main_settles:
  "fst (try_block cfg e (initial_world d0)) \<noteq> Hang \<Longrightarrow>
   fst (main cfg e d0) =
     (if launch_result e = None
      then (case close_result e of Some c \<Rightarrow> Throw c | None \<Rightarrow> Normal)
      else Normal) \<and>
   actions (snd (main cfg e d0)) =
     actions (snd (try_block cfg e (initial_world d0)))
       @ (case fst (try_block cfg e (initial_world d0)) of Throw err \<Rightarrow> [LogError err] | _ \<Rightarrow> [])
       @ (if launch_result e = None then [CloseBrowser] else [])"
  using try_block_trace [of cfg e d0]
  by (cases "try_block cfg e (initial_world d0)")
     (auto simp: main_def act_def Let_def split: completion.splits option.splits)


text \<open>The run in which the first write of \<^verbatim>\<open>saveResponses\<close> is refused.\<close>

lemma blocked_run:
  "try_block CONFIG blocked_env (initial_world None) =
     (Throw (EISDIR (fileName 0 0)),
      \<lparr>actions = [Launch, NewPage, CreateCDPSession, PrepareOutputDirectory,
                  RegisterResponseObserver, Goto, WaitForNetworkIdle, SaveResponses],
       dir = Some [(fileName 0 0, Dir)], responses = [lit ''{}''], browser = True\<rparr>)"
proof -
  have r: "onResponse CONFIG (apiEndpoint CONFIG) (Inr (lit ''{}'')) [] = [lit ''{}'']"
    by (simp add: onResponse_def CONFIG_def lit_def trim_def isWhiteSpace_def)
  have i: "resolveCalls (fireTimer (networkIdleTimeout CONFIG) 30000
             (waitForNetworkIdle (networkIdleTimeout CONFIG) 0)) = [30000]"
    by (simp add: CONFIG_def waitForNetworkIdle_state fireTimer_def checkIdle_idle)
  have w: "saveResponses 0 [lit ''{}''] (Some [(fileName 0 0, Dir)]) =
             (Some (EISDIR (fileName 0 0)), Some [(fileName 0 0, Dir)])"
    by (simp add: saveResponses_def existsSync_def write_loop.simps [of 0 _ 0]
        writeFileSync_def)
  show ?thesis
    by (simp add: try_block_def initial_world_def act_def deliver_def blocked_env_def
        quiet_env_def prepareOutputDirectory_def existsSync_def r i w Let_def)
qed

text \<open>
  Claim C1, as the code has it. An error thrown in the \<^verbatim>\<open>try\<close> block of \<^verbatim>\<open>main\<close>
  (launch, page, navigation, prepare or save failure) is caught by the \<^verbatim>\<open>catch\<close> block
  of \<^verbatim>\<open>main\<close>, which logs it; it does not reach the top-level runner. The process then
  ends with status 0, unless the browser was launched and closing it fails: only that
  rejection reaches the runner, which exits with status 1. A run in which the \<^verbatim>\<open>try\<close>
  block completes and the close succeeds ends with status 0.
\<close>

theorem session_errors_are_caught_in_main:
  "(fst (try_block cfg e (initial_world d0)) = Throw err \<longrightarrow>
      LogError err \<in> set (actions (snd (main cfg e d0))) \<and>
      exit_status cfg e d0 =
        Some (if launch_result e = None \<and> close_result e \<noteq> None then 1 else 0)) \<and>
   (fst (try_block cfg e (initial_world d0)) = Normal \<longrightarrow>
      exit_status cfg e d0 = Some (if close_result e = None then 0 else 1))"
  using main_settles [of cfg e d0] try_block_trace [of cfg e d0]
  by (auto simp: exit_status_def split: option.splits
      simp: try_block_def initial_world_def act_def)

theorem session_errors_witness:
  "(fst (try_block CONFIG (quiet_env\<lparr>launch_result := Some LaunchFailed\<rparr>) (initial_world None)) =
      Throw LaunchFailed \<and>
    exit_status CONFIG (quiet_env\<lparr>launch_result := Some LaunchFailed\<rparr>) None = Some 0) \<and>
   (fst (try_block CONFIG blocked_env (initial_world None)) = Throw (EISDIR (fileName 0 0)) \<and>
    LogError (EISDIR (fileName 0 0)) \<in> set (actions (snd (main CONFIG blocked_env None))) \<and>
    exit_status CONFIG blocked_env None = Some 0) \<and>
   (fst (try_block CONFIG quiet_env (initial_world None)) = Normal \<and>
    exit_status CONFIG quiet_env None = Some 0)"
proof (intro conjI)
  have l: "fst (try_block CONFIG (quiet_env\<lparr>launch_result := Some LaunchFailed\<rparr>)
             (initial_world None)) = Throw LaunchFailed"
    by (simp add: try_block_def quiet_env_def)
  show "fst (try_block CONFIG (quiet_env\<lparr>launch_result := Some LaunchFailed\<rparr>)
          (initial_world None)) = Throw LaunchFailed"
    by (rule l)
  show "exit_status CONFIG (quiet_env\<lparr>launch_result := Some LaunchFailed\<rparr>) None = Some 0"
    using l session_errors_are_caught_in_main
      [of CONFIG "quiet_env\<lparr>launch_result := Some LaunchFailed\<rparr>" None LaunchFailed]
    by (simp add: quiet_env_def)
next
  have b: "fst (try_block CONFIG blocked_env (initial_world None)) = Throw (EISDIR (fileName 0 0))"
    by (simp add: blocked_run)
  show "fst (try_block CONFIG blocked_env (initial_world None)) = Throw (EISDIR (fileName 0 0))"
    by (rule b)
  show "LogError (EISDIR (fileName 0 0)) \<in> set (actions (snd (main CONFIG blocked_env None)))"
    using b session_errors_are_caught_in_main
      [of CONFIG blocked_env None "EISDIR (fileName 0 0)"]
    by simp
  show "exit_status CONFIG blocked_env None = Some 0"
    using b session_errors_are_caught_in_main
      [of CONFIG blocked_env None "EISDIR (fileName 0 0)"]
    by (simp add: blocked_env_def quiet_env_def)
next
  have q: "fst (try_block CONFIG quiet_env (initial_world None)) = Normal"
    by (simp add: try_block_def initial_world_def act_def deliver_def quiet_env_def
        prepareOutputDirectory_def existsSync_def CONFIG_def waitForNetworkIdle_state
        fireTimer_def checkIdle_idle saveResponses_def mkdirSync_def write_loop.simps [of 0 _ 0])
  show "fst (try_block CONFIG quiet_env (initial_world None)) = Normal"
    by (rule q)
  show "exit_status CONFIG quiet_env None = Some 0"
    using q session_errors_are_caught_in_main [of CONFIG quiet_env None LaunchFailed]
    by (simp add: quiet_env_def)
qed

text \<open>
  The claim as stated fails when navigation fails and everything else succeeds: the
  error is thrown in the \<^verbatim>\<open>try\<close> block, \<^verbatim>\<open>main\<close> fulfils, and the exit status is 0.
\<close>

theorem navigation_failure_exits_zero_counterexample:
  "fst (try_block CONFIG (quiet_env\<lparr>goto_result := Some NavigationFailed\<rparr>) (initial_world None)) =
     Throw NavigationFailed \<and>
   fst (main CONFIG (quiet_env\<lparr>goto_result := Some NavigationFailed\<rparr>) None) = Normal \<and>
   exit_status CONFIG (quiet_env\<lparr>goto_result := Some NavigationFailed\<rparr>) None = Some 0"
  by (simp add: exit_status_def main_def try_block_def initial_world_def act_def deliver_def
      quiet_env_def prepareOutputDirectory_def existsSync_def)




text \<open>
  Claim C10. When the output directory has an entry that is a subdirectory,
  \<^verbatim>\<open>prepareOutputDirectory\<close> throws the error of unlinking such an entry; in a session
  that got as far as preparing, the error is logged and the browser closed with no
  response observer registered, no navigation and no payload captured. And
  \<^verbatim>\<open>prepareOutputDirectory\<close> returns normally exactly when every entry of an existing
  directory is a plain file.
\<close>

theorem prepare_throws_on_subdirectory:
  "((n, Dir) \<in> set es \<longrightarrow>
      (\<exists>m d'. prepareOutputDirectory (Some es) = (Some (EISDIR m), d') \<and> (m, Dir) \<in> set es \<and>
         (launch_result e = None \<and> newPage_result e = None \<and> createCDPSession_result e = None
          \<longrightarrow> snd (main cfg e (Some es)) =
                \<lparr>actions = [Launch, NewPage, CreateCDPSession, PrepareOutputDirectory,
                            LogError (EISDIR m), CloseBrowser],
                 dir = d', responses = [], browser = True\<rparr>))) \<and>
   (fst (prepareOutputDirectory d) = None \<longleftrightarrow>
      (\<forall>es'. d = Some es' \<longrightarrow> (\<forall>(k, x) \<in> set es'. \<exists>data. x = File data)))"
proof
  show "(n, Dir) \<in> set es \<longrightarrow>
      (\<exists>m d'. prepareOutputDirectory (Some es) = (Some (EISDIR m), d') \<and> (m, Dir) \<in> set es \<and>
         (launch_result e = None \<and> newPage_result e = None \<and> createCDPSession_result e = None
          \<longrightarrow> snd (main cfg e (Some es)) =
                \<lparr>actions = [Launch, NewPage, CreateCDPSession, PrepareOutputDirectory,
                            LogError (EISDIR m), CloseBrowser],
                 dir = d', responses = [], browser = True\<rparr>))"
  proof
    assume "(n, Dir) \<in> set es"
    from prepare_dir [OF this] obtain m d'
      where p: "prepareOutputDirectory (Some es) = (Some (EISDIR m), d')"
        and m: "(m, Dir) \<in> set es" by blast
    show "\<exists>m d'. prepareOutputDirectory (Some es) = (Some (EISDIR m), d') \<and> (m, Dir) \<in> set es \<and>
         (launch_result e = None \<and> newPage_result e = None \<and> createCDPSession_result e = None
          \<longrightarrow> snd (main cfg e (Some es)) =
                \<lparr>actions = [Launch, NewPage, CreateCDPSession, PrepareOutputDirectory,
                            LogError (EISDIR m), CloseBrowser],
                 dir = d', responses = [], browser = True\<rparr>)"
    proof (intro exI conjI)
      show "prepareOutputDirectory (Some es) = (Some (EISDIR m), d')" by (rule p)
      show "(m, Dir) \<in> set es" by (rule m)
      show "launch_result e = None \<and> newPage_result e = None \<and>
            createCDPSession_result e = None
          \<longrightarrow> snd (main cfg e (Some es)) =
                \<lparr>actions = [Launch, NewPage, CreateCDPSession, PrepareOutputDirectory,
                            LogError (EISDIR m), CloseBrowser],
                 dir = d', responses = [], browser = True\<rparr>"
        using main_prepare_throws [where e = e and cfg = cfg, OF _ _ _ p] by simp
    qed
  qed
next
  have "(\<exists>data. x = File data) \<longleftrightarrow> x \<noteq> Dir" for x
    by (cases x) simp_all
  then show "fst (prepareOutputDirectory d) = None \<longleftrightarrow>
      (\<forall>es'. d = Some es' \<longrightarrow> (\<forall>(k, x) \<in> set es'. \<exists>data. x = File data))"
    by (simp add: prepare_ok_iff)
qed

theorem prepare_throws_witness:
  "(lit ''sub'', Dir) \<in> set [(lit ''a.json'', File []), (lit ''sub'', Dir)] \<and>
   prepareOutputDirectory (Some [(lit ''a.json'', File []), (lit ''sub'', Dir)]) =
     (Some (EISDIR (lit ''sub'')), Some [(lit ''sub'', Dir)]) \<and>
   actions (snd (main CONFIG quiet_env (Some [(lit ''a.json'', File []), (lit ''sub'', Dir)]))) =
     [Launch, NewPage, CreateCDPSession, PrepareOutputDirectory,
      LogError (EISDIR (lit ''sub'')), CloseBrowser]"
  using prepare_throws_on_subdirectory
    [of "lit ''sub''" "[(lit ''a.json'', File []), (lit ''sub'', Dir)]" quiet_env CONFIG None]
  by (auto simp: quiet_env_def prepareOutputDirectory_def existsSync_def readdirSync_def
      unlinkSync_def lit_def)

end
